theory Spec2Isabelle
  imports Main "HOL-Library.Word" "HOL-Library.Multiset"
begin

unbundle bit_operations_syntax

section \<open>Data model of \<open>protocol/raw.go\<close>\<close>

text \<open>
  Go's \<open>byte\<close> is an unsigned 8-bit integer whose arithmetic wraps around; a
  \<open>[]byte\<close> is read here as the list of its elements (\<open>nil\<close> and the empty slice both
  have length 0, and the code only ever asks for the length).
\<close>

type_synonym byte = "8 word"

text \<open>\<open>type SecurityState int\<close> with the three constants declared by \<open>iota\<close>.\<close>

datatype SecurityState = SecurityEmpty | SecurityKeyProposed | SecurityKeyAccepted

text \<open>The struct \<open>SecurityKey\<close>; \<open>sNum, rNum byte\<close> are its two counters.\<close>

record SecurityKey =
  State :: SecurityState
  proposedKey :: "byte list"
  securityKey :: byte
  keyMap :: "byte list"
  sNum :: byte
  rNum :: byte

text \<open>The zero value \<open>SecurityKey{}\<close>, which is how a key starts its life.\<close>

definition SecurityKey_zero :: SecurityKey where
  "SecurityKey_zero =
     \<lparr>State = SecurityEmpty, proposedKey = [], securityKey = 0, keyMap = [],
      sNum = 0, rNum = 0\<rparr>"

text \<open>
  A run-time panic of the Go program: an index or a slice bound out of range. Every
  function that can reach one returns \<open>panic + result\<close>.
\<close>

datatype panic = IndexOutOfRange | SliceBoundsOutOfRange

section \<open>The session key\<close>

text \<open>
  \<open>GenerateProposal\<close>: eight draws of \<open>rand.Intn(256)\<close>, each converted to a byte.
  The generator is outside the program, so the draws are a parameter: \<open>rnd i\<close> is the
  value drawn in round \<open>i\<close>. The slice is returned and stored.
\<close>

definition GenerateProposal :: "(nat \<Rightarrow> nat) \<Rightarrow> SecurityKey \<Rightarrow> byte list \<times> SecurityKey" where
  "GenerateProposal rnd s =
     (let key = map (\<lambda>i. (of_nat (rnd i) :: byte)) [0..<8];
          s1 = s\<lparr>proposedKey := key\<rparr>;
          s2 = s1\<lparr>State := SecurityKeyProposed\<rparr>
      in (proposedKey s2, s2))"

text \<open>
  The first loop of \<open>Update\<close>: \<open>for i := 0; i < len(s.keyMap); i++ { s.keyMap[i] = byte(i) }\<close>.
\<close>

function keyMap_fill :: "nat \<Rightarrow> byte list \<Rightarrow> byte list" where
  "keyMap_fill i km =
     (if i < length km then keyMap_fill (i + 1) (km[i := of_nat i]) else km)"
  by pat_completeness auto
termination
  by (relation "measure (\<lambda>(i, km). length km - i)") auto

text \<open>
  The second loop of \<open>Update\<close>, rounds \<open>i, i + 1, ..., 255\<close>. \<open>index\<close> and \<open>s_key\<close> are
  Go \<open>int\<close>s that never leave \<open>0 .. 765\<close>, so they are natural numbers here and
  \<open>%\<close> is \<open>mod\<close>. The call sites keep \<open>length km = 256\<close>, so both \<open>i\<close> and \<open>index\<close> are
  in range.
\<close>

function keyMap_shuffle :: "nat \<Rightarrow> nat \<Rightarrow> nat \<Rightarrow> byte list \<Rightarrow> byte list" where
  "keyMap_shuffle s_key i index km =
     (if i < 256 then
        (let index1 = index + unat (km ! i);
             index2 = index1 + s_key;
             index3 = index2 mod 256;
             temp = km ! i;
             km1 = km[i := km ! index3];
             km2 = km1[index3 := temp]
         in keyMap_shuffle s_key (i + 1) index3 km2)
      else km)"
  by pat_completeness auto
termination
  by (relation "measure (\<lambda>(s_key, i, index, km). 256 - i)") auto

text \<open>The security key computed from bytes 4 to 11 of the packet.\<close>

definition packet_key :: "byte list \<Rightarrow> byte" where
  "packet_key packet =
     (let result = drop_bit 3 (packet ! 4 AND 0x8);
          result = result OR drop_bit 2 (packet ! 5 AND 0x8);
          result = result OR drop_bit 1 (packet ! 6 AND 0x8);
          result = result OR (packet ! 7 AND 0x8);
          result = result OR push_bit 1 (packet ! 8 AND 0x8);
          result = result OR push_bit 2 (packet ! 9 AND 0x8);
          result = result OR push_bit 3 (packet ! 10 AND 0x8);
          result = result OR push_bit 4 (packet ! 11 AND 0x8)
      in result)"

text \<open>
  \<open>Update\<close>. A packet shorter than 12 bytes clears the key; otherwise \<open>packet[4..11]\<close>
  exist, \<open>make([]byte, 256)\<close> is 256 zero bytes, and no index leaves its slice.
\<close>

definition Update :: "byte list \<Rightarrow> SecurityKey \<Rightarrow> SecurityKey" where
  "Update packet s =
     (if length packet < 12 then
        s\<lparr>keyMap := [], securityKey := 0, sNum := 0, rNum := 0\<rparr>
      else
        (let s1 = s\<lparr>securityKey := packet_key packet\<rparr>;
             s_key = unat (securityKey s1);
             s2 = s1\<lparr>keyMap := replicate 256 0\<rparr>;
             s3 = s2\<lparr>keyMap := keyMap_fill 0 (keyMap s2)\<rparr>;
             s4 = s3\<lparr>keyMap := keyMap_shuffle s_key 0 0 (keyMap s3)\<rparr>
         in s4\<lparr>sNum := 0, rNum := 0\<rparr>))"

text \<open>\<open>AcceptProposal\<close>: four zero bytes, then the proposal, go through \<open>Update\<close>.\<close>

definition accept_packet :: "SecurityKey \<Rightarrow> byte list" where
  "accept_packet s = [0x0, 0x0, 0x0, 0x0] @ proposedKey s"

definition AcceptProposal :: "SecurityKey \<Rightarrow> SecurityKey" where
  "AcceptProposal s = (Update (accept_packet s) s)\<lparr>State := SecurityKeyAccepted\<rparr>"

text \<open>
  \<open>RKey\<close> and \<open>SKey\<close>: the sentinel 0 on an empty key map; otherwise the counter is
  read, incremented (with wrap-around) when asked, and the key map is indexed with the
  value read, which panics when the key map is shorter than that.
\<close>

definition RKey :: "bool \<Rightarrow> SecurityKey \<Rightarrow> panic + (byte \<times> SecurityKey)" where
  "RKey increment s =
     (if length (keyMap s) = 0 then Inr (0, s)
      else
        (let ret = rNum s;
             s1 = (if increment then s\<lparr>rNum := rNum s + 1\<rparr> else s)
         in if unat ret < length (keyMap s1) then Inr (keyMap s1 ! unat ret, s1)
            else Inl IndexOutOfRange))"

definition SKey :: "bool \<Rightarrow> SecurityKey \<Rightarrow> panic + (byte \<times> SecurityKey)" where
  "SKey increment s =
     (if length (keyMap s) = 0 then Inr (0, s)
      else
        (let ret = sNum s;
             s1 = (if increment then s\<lparr>sNum := sNum s + 1\<rparr> else s)
         in if unat ret < length (keyMap s1) then Inr (keyMap s1 ! unat ret, s1)
            else Inl IndexOutOfRange))"

section \<open>The framer\<close>

text \<open>\<open>XorMessageWith\<close>: a fresh slice of the same length, every byte XORed.\<close>

definition XorMessageWith :: "byte list \<Rightarrow> byte \<Rightarrow> byte list" where
  "XorMessageWith message xorb = map (\<lambda>b. b XOR xorb) message"

text \<open>
  The loop of \<open>Checksum\<close>: \<open>for i := byte(0); ; i++ { if i >= length-1 { break }; b = message[i] + b }\<close>,
  with \<open>i\<close>, \<open>length\<close> and \<open>b\<close> all bytes. \<open>bound\<close> is \<open>length-1\<close>.
\<close>

function Checksum_loop :: "byte list \<Rightarrow> byte \<Rightarrow> byte \<Rightarrow> byte \<Rightarrow> panic + byte" where
  "Checksum_loop message bound i b =
     (if i \<ge> bound then Inr b
      else if unat i < length message
        then Checksum_loop message bound (i + 1) (message ! unat i + b)
        else Inl IndexOutOfRange)"
  by pat_completeness auto
termination
proof (relation "measure (\<lambda>(message, bound, i, b). unat bound - unat i)")
  show "wf (measure (\<lambda>(message, bound, i, b). unat bound - unat i))" by simp
next
  fix message :: "byte list" and bound i b :: byte
  assume "\<not> bound \<le> i"
  then have lt: "unat i < unat bound" by (simp add: word_less_nat_alt not_le)
  have "unat bound < 2 ^ LENGTH(8)" by (rule unsigned_less)
  with lt have "unat i + unat (1 :: byte) < 2 ^ LENGTH(8)" by simp
  then have "unat (i + 1) = unat i + unat (1 :: byte)" by (simp only: unat_add_lem)
  with lt show "((message, bound, i + 1, message ! unat i + b), (message, bound, i, b))
        \<in> measure (\<lambda>(message, bound, i, b). unat bound - unat i)"
    by simp
qed

text \<open>\<open>Checksum\<close>: \<open>length := message[1] + 2\<close> is byte arithmetic.\<close>

definition Checksum :: "byte list \<Rightarrow> panic + byte" where
  "Checksum message =
     (if 1 < length message then
        (let len = message ! 1 + 2 in Checksum_loop message (len - 1) 0 0)
      else Inl IndexOutOfRange)"

text \<open>\<open>ValidateChecksum\<close>: here \<open>length := int(message[1]) + 2\<close> is an \<open>int\<close>.\<close>

definition ValidateChecksum :: "byte list \<Rightarrow> panic + bool" where
  "ValidateChecksum message =
     (if 1 < length message then
        (let len = unat (message ! 1) + 2 in
         if length message < len then Inr False
         else
           (let wantSum = message ! (len - 1) in
            case Checksum message of
              Inl e \<Rightarrow> Inl e
            | Inr csum \<Rightarrow> Inr (csum = wantSum)))
      else Inl IndexOutOfRange)"

text \<open>
  The end of \<open>ValidateAndDecodeMessage\<close>, after a key has validated:
  \<open>length := msg[1] + 2\<close> is again a byte. \<open>msg[:length]\<close> needs
  \<open>length \<le> cap(msg) = len(message)\<close>; absent results (\<open>nil\<close>) are \<open>None\<close>.
\<close>

type_synonym decoded = "byte list option \<times> byte \<times> byte list option"

definition decode_split :: "byte list \<Rightarrow> byte list \<Rightarrow> byte \<Rightarrow> panic + decoded" where
  "decode_split message msg xorb =
     (let len = msg ! 1 + 2 in
      if length message > unat len then
        Inr (Some (take (unat len) msg), xorb, Some (drop (unat len) message))
      else if unat len \<le> length msg then
        Inr (Some (take (unat len) msg), xorb, None)
      else Inl SliceBoundsOutOfRange)"

definition ValidateAndDecodeMessage :: "byte list \<Rightarrow> panic + decoded" where
  "ValidateAndDecodeMessage message =
     (if length message < 4 then Inr (None, 0, None)
      else
        (let xorb = message ! 2;
             msg = XorMessageWith message xorb in
         case ValidateChecksum msg of
           Inl e \<Rightarrow> Inl e
         | Inr ok \<Rightarrow>
             if \<not> ok then
               (let xorb = xorb XOR 1;
                    msg = XorMessageWith message xorb in
                case ValidateChecksum msg of
                  Inl e \<Rightarrow> Inl e
                | Inr ok' \<Rightarrow>
                    if \<not> ok' then Inr (None, 0, None)
                    else decode_split message msg xorb)
             else decode_split message msg xorb))"

subsection \<open>The store-level reading of \<open>XorMessageWith\<close>\<close>

text \<open>
  To say that \<open>XorMessageWith\<close> writes to a new slice only, the slices live in a store:
  an address is a position in the list of all backing arrays, and \<open>make\<close> allocates at
  the end. \<open>for i := range message\<close> reads the length \<open>n\<close> once; \<open>message\<close> and \<open>msg\<close>
  are addresses.
\<close>

type_synonym store = "byte list list"

function XorMessageWith_loop :: "nat \<Rightarrow> nat \<Rightarrow> nat \<Rightarrow> nat \<Rightarrow> byte \<Rightarrow> store \<Rightarrow> store" where
  "XorMessageWith_loop message msg n i xorb st =
     (if i < n then
        XorMessageWith_loop message msg n (i + 1) xorb
          (st[msg := (st ! msg)[i := (st ! message) ! i XOR xorb]])
      else st)"
  by pat_completeness auto
termination
  by (relation "measure (\<lambda>(message, msg, n, i, xorb, st). n - i)") auto

definition XorMessageWith_store :: "nat \<Rightarrow> byte \<Rightarrow> store \<Rightarrow> nat \<times> store" where
  "XorMessageWith_store message xorb st =
     (let msg = length st;
          st1 = st @ [replicate (length (st ! message)) 0]
      in (msg, XorMessageWith_loop message msg (length (st1 ! message)) 0 xorb st1))"

section \<open>Notions of the specification\<close>

text \<open>
  The key schedule in the specification's words: start from the identity sequence
  \<open>[0, 1, ..., 255]\<close>; in round \<open>i = 0, ..., 255\<close> set
  \<open>index = (index + permutation[i] + derivedKey) mod 256\<close> and swap \<open>permutation[i]\<close> with
  \<open>permutation[index]\<close>.
\<close>

definition swap_entries :: "nat \<Rightarrow> nat \<Rightarrow> byte list \<Rightarrow> byte list" where
  "swap_entries i j perm = perm[i := perm ! j, j := perm ! i]"

fun key_schedule_round :: "byte \<Rightarrow> nat \<times> byte list \<Rightarrow> nat \<Rightarrow> nat \<times> byte list" where
  "key_schedule_round key (index, perm) i =
     (let index' = (index + unat (perm ! i) + unat key) mod 256
      in (index', swap_entries i index' perm))"

definition identity_permutation :: "byte list" where
  "identity_permutation = map of_nat [0..<256]"

definition key_schedule :: "byte \<Rightarrow> byte list" where
  "key_schedule key = snd (foldl (key_schedule_round key) (0, identity_permutation) [0..<256])"

text \<open>The packet of the specification's scenario.\<close>

definition scenario_packet :: "byte list" where
  "scenario_packet = [0, 0, 0, 0, 0x08, 0x00, 0x08, 0x08, 0x00, 0x08, 0x00, 0x08]"

text \<open>
  A sequence of calls to \<open>RKey\<close> and \<open>SKey\<close>, with the bytes they return; a panic ends
  the run.
\<close>

datatype key_request = CallRKey bool | CallSKey bool

fun key_call :: "key_request \<Rightarrow> SecurityKey \<Rightarrow> panic + (byte \<times> SecurityKey)" where
  "key_call (CallRKey increment) s = RKey increment s"
| "key_call (CallSKey increment) s = SKey increment s"

fun key_calls :: "key_request list \<Rightarrow> SecurityKey \<Rightarrow> panic + (byte list \<times> SecurityKey)" where
  "key_calls [] s = Inr ([], s)"
| "key_calls (c # cs) s =
     (case key_call c s of
        Inl e \<Rightarrow> Inl e
      | Inr (k, s1) \<Rightarrow>
          (case key_calls cs s1 of
             Inl e \<Rightarrow> Inl e
           | Inr (ks, s2) \<Rightarrow> Inr (k # ks, s2)))"

text \<open>
  A permutation table is a bijection of \<open>{0..255}\<close> when it has 256 entries and each of
  the byte values \<open>0, ..., 255\<close> occurs in it exactly once.
\<close>

definition is_bijection :: "byte list \<Rightarrow> bool" where
  "is_bijection perm =
     (length perm = 256 \<and> list_all (\<lambda>v. count_list perm v = 1) identity_permutation)"

definition permutation_ok :: "SecurityKey \<Rightarrow> bool" where
  "permutation_ok s = (keyMap s = [] \<or> is_bijection (keyMap s))"

text \<open>The operations of a session key, and a run of them from a given key.\<close>

datatype operation =
  OpGenerateProposal "nat \<Rightarrow> nat" | OpAcceptProposal | OpUpdate "byte list"
  | OpRKey bool | OpSKey bool

fun apply_operation :: "operation \<Rightarrow> SecurityKey \<Rightarrow> panic + SecurityKey" where
  "apply_operation (OpGenerateProposal rnd) s = Inr (snd (GenerateProposal rnd s))"
| "apply_operation OpAcceptProposal s = Inr (AcceptProposal s)"
| "apply_operation (OpUpdate packet) s = Inr (Update packet s)"
| "apply_operation (OpRKey increment) s =
     (case RKey increment s of Inl e \<Rightarrow> Inl e | Inr (k, s') \<Rightarrow> Inr s')"
| "apply_operation (OpSKey increment) s =
     (case SKey increment s of Inl e \<Rightarrow> Inl e | Inr (k, s') \<Rightarrow> Inr s')"

fun apply_operations :: "operation list \<Rightarrow> SecurityKey \<Rightarrow> panic + SecurityKey" where
  "apply_operations [] s = Inr s"
| "apply_operations (op # ops) s =
     (case apply_operation op s of Inl e \<Rightarrow> Inl e | Inr s' \<Rightarrow> apply_operations ops s')"

text \<open>
  The checksum in the specification's words: with \<open>length = message[1] + 2\<close> as an
  ordinary integer, the sum of the bytes \<open>message[0 .. length-2]\<close>, each addition modulo
  256.
\<close>

definition Checksum_spec :: "byte list \<Rightarrow> byte" where
  "Checksum_spec m = (let len = unat (m ! 1) + 2 in sum_list (take (len - 1) m))"

text \<open>A message of 257 bytes whose length byte is 255: \<open>[2, 255, 0, ..., 0]\<close>.\<close>

definition wrapping_message :: "byte list" where
  "wrapping_message = 2 # 255 # replicate 255 0"

text \<open>
  A frame on the wire, in the specification's words: de-obfuscated, it is exactly
  \<open>message[1] + 2\<close> bytes long and its last byte is the checksum of the others; raw, its
  third byte is the XOR key of the frame or the low-bit complement of that key.
\<close>

definition frame_ok :: "byte list \<Rightarrow> bool" where
  "frame_ok g = (2 \<le> length g \<and> length g = unat (g ! 1) + 2 \<and> ValidateChecksum g = Inr True)"

definition obfuscated_frame :: "byte list \<Rightarrow> bool" where
  "obfuscated_frame f =
     (4 \<le> length f
      \<and> (frame_ok (XorMessageWith f (f ! 2)) \<or> frame_ok (XorMessageWith f (f ! 2 XOR 1))))"

text \<open>A frame of 256 bytes, its length byte being 254: \<open>[0, 254, 0, ..., 0, 254]\<close>.\<close>

definition long_frame :: "byte list" where
  "long_frame = 0 # 254 # replicate 253 0 @ [254]"

section \<open>Bytes\<close>

lemma byte_unat_less: "unat (b :: byte) < 256"
  using unsigned_less [of b, where 'a = nat] by simp

lemma byte_of_nat_inverse: "n < 256 \<Longrightarrow> unat (of_nat n :: byte) = n"
  by (simp add: unat_of_nat)

lemma byte_inc: "unat (i :: byte) < unat (bound :: byte) \<Longrightarrow> unat (i + 1) = unat i + 1"
proof -
  assume lt: "unat i < unat bound"
  have "unat bound < 2 ^ LENGTH(8)" by (rule unsigned_less)
  with lt have "unat i + unat (1 :: byte) < 2 ^ LENGTH(8)" by simp
  then have "unat (i + 1) = unat i + unat (1 :: byte)" by (simp only: unat_add_lem)
  then show ?thesis by simp
qed

lemma byte_add_le: "unat (a + b :: byte) \<le> unat a + unat b"
  by (simp add: unat_word_ariths)

lemma bytes_upto_distinct:
  assumes "n \<le> 256"
  shows "distinct (map of_nat [0..<n] :: byte list)"
proof -
  have "inj_on (of_nat :: nat \<Rightarrow> byte) {0..<n}"
  proof (rule inj_onI)
    fix x y :: nat
    assume "x \<in> {0..<n}" "y \<in> {0..<n}" and eq: "(of_nat x :: byte) = of_nat y"
    with assms have "x < 256" "y < 256" by simp_all
    then have x: "unat (of_nat x :: byte) = x" and y: "unat (of_nat y :: byte) = y"
      by (simp_all add: byte_of_nat_inverse)
    have "unat (of_nat x :: byte) = unat (of_nat y :: byte)" by (simp only: eq)
    then show "x = y" by (simp only: x y)
  qed
  then show ?thesis by (simp add: distinct_map)
qed

lemma bytes_upto_member:
  assumes "unat v < n"
  shows "v \<in> set (map of_nat [0..<n] :: byte list)"
proof -
  have "v = of_nat (unat v)" by simp
  moreover have "unat v \<in> {0..<n}" using assms by simp
  ultimately have "v \<in> of_nat ` {0..<n}" by (rule image_eqI)
  then show ?thesis by simp
qed

lemma bit_and_8: "bit ((x::byte) AND 0x8) n \<longleftrightarrow> n = 3 \<and> bit x 3"
proof -
  have "(0x8 :: byte) = 2 ^ 3" by simp
  then have "bit (0x8 :: byte) n \<longleftrightarrow> n = 3"
    by (simp only: bit_exp_iff) (auto simp: possible_bit_def)
  then show ?thesis by (auto simp: bit_and_iff)
qed

lemma bit_drop_and_8: "bit (drop_bit m ((x::byte) AND 0x8)) n \<longleftrightarrow> m + n = 3 \<and> bit x 3"
  by (simp only: bit_drop_bit_eq o_def bit_and_8)

lemma bit_push_and_8:
  "bit (push_bit m ((x::byte) AND 0x8)) n \<longleftrightarrow> n < 8 \<and> m \<le> n \<and> n - m = 3 \<and> bit x 3"
  by (simp only: bit_push_bit_iff bit_and_8) (auto simp: possible_bit_def)

section \<open>The loops of \<open>Update\<close>\<close>

lemma keyMap_fill_length: "length (keyMap_fill i km) = length km"
  by (induction i km rule: keyMap_fill.induct)
     (simp del: keyMap_fill.simps add: keyMap_fill.simps [of i for i])

lemma keyMap_fill_eq:
  "i \<le> length km \<Longrightarrow> keyMap_fill i km = take i km @ map of_nat [i..<length km]"
proof (induction i km rule: keyMap_fill.induct)
  case (1 i km)
  show ?case
  proof (cases "i < length km")
    case False
    with 1 show ?thesis by simp
  next
    case True
    have "keyMap_fill i km = keyMap_fill (i + 1) (km[i := of_nat i])"
      using True by simp
    also have "\<dots> = take (i + 1) (km[i := of_nat i]) @ map of_nat [i + 1..<length km]"
      using "1.IH" [OF True] True by simp
    also have "\<dots> = take i km @ map of_nat [i..<length km]"
      using True by (simp add: take_Suc_conv_app_nth upt_conv_Cons)
    finally show ?thesis .
  qed
qed

lemma keyMap_shuffle_length: "length (keyMap_shuffle k i index km) = length km"
  by (induction k i index km rule: keyMap_shuffle.induct)
     (simp del: keyMap_shuffle.simps add: keyMap_shuffle.simps [of _ i for i] Let_def)

lemma keyMap_shuffle_mset:
  "length km = 256 \<Longrightarrow> mset (keyMap_shuffle k i index km) = mset km"
proof (induction k i index km rule: keyMap_shuffle.induct)
  case (1 k i index km)
  show ?case
  proof (cases "i < 256")
    case False
    then show ?thesis by simp
  next
    case True
    define j where "j = (index + unat (km ! i) + k) mod 256"
    have j: "j < length km" using "1.prems" by (simp add: j_def)
    have i: "i < length km" using "1.prems" True by simp
    have "keyMap_shuffle k i index km = keyMap_shuffle k (i + 1) j (km[i := km ! j, j := km ! i])"
      using True by (simp add: j_def Let_def)
    also have "mset \<dots> = mset (km[i := km ! j, j := km ! i])"
      using "1.IH" [OF True refl refl refl refl refl refl] "1.prems" by (simp add: j_def)
    also have "\<dots> = mset km"
      using mset_swap [OF j i] by simp
    finally show ?thesis .
  qed
qed

lemma keyMap_shuffle_fold:
  "i \<le> 256 \<Longrightarrow> keyMap_shuffle (unat key) i index km
     = snd (foldl (key_schedule_round key) (index, km) [i..<256])"
proof (induction "unat key" i index km rule: keyMap_shuffle.induct)
  case (1 i index km)
  show ?case
  proof (cases "i < 256")
    case False
    with 1 show ?thesis by simp
  next
    case True
    then show ?thesis
      using "1.hyps" [OF True refl refl refl refl refl refl]
      by (simp add: upt_conv_Cons Let_def swap_entries_def del: keyMap_shuffle.simps
            add: keyMap_shuffle.simps [of _ i])
  qed
qed

lemma identity_permutation_length: "length identity_permutation = 256"
  unfolding identity_permutation_def by (simp only: length_map length_upt)

lemma is_bijection_iff:
  "is_bijection perm \<longleftrightarrow> length perm = 256 \<and> (\<forall>v. count_list perm v = 1)"
proof -
  have "v \<in> set identity_permutation" for v
    unfolding identity_permutation_def by (rule bytes_upto_member) (rule byte_unat_less)
  then show ?thesis by (auto simp: is_bijection_def list_all_iff)
qed

lemma identity_permutation_bijection: "is_bijection identity_permutation"
proof -
  have d: "distinct identity_permutation"
    unfolding identity_permutation_def by (rule bytes_upto_distinct) simp
  have "v \<in> set identity_permutation" for v
    unfolding identity_permutation_def by (rule bytes_upto_member) (rule byte_unat_less)
  with d have "count (mset identity_permutation) v = 1" for v
    by (simp add: distinct_count_atmost_1)
  then have "count_list identity_permutation v = 1" for v
    by (simp only: count_mset)
  then show ?thesis by (simp add: is_bijection_iff identity_permutation_length)
qed

lemma mset_bijection:
  assumes "mset km = mset km'" and "is_bijection km'"
  shows "is_bijection km"
proof -
  have "length km = length km'" using assms(1) by (rule mset_eq_length)
  moreover have "count_list km v = count_list km' v" for v
    using assms(1) by (metis count_mset)
  ultimately show ?thesis using assms(2) by (simp add: is_bijection_iff)
qed

lemma keyMap_fill_identity: "keyMap_fill 0 (replicate 256 0) = identity_permutation"
  unfolding identity_permutation_def
  using keyMap_fill_eq [of 0 "replicate 256 0"] by (simp only: length_replicate take_0 append_Nil le0)

lemma Update_keyMap_long:
  "12 \<le> length p \<Longrightarrow>
     keyMap (Update p s) = keyMap_shuffle (unat (packet_key p)) 0 0 identity_permutation"
  by (simp add: Update_def Let_def keyMap_fill_identity del: keyMap_fill.simps keyMap_shuffle.simps)

lemma Update_bijection: "12 \<le> length p \<Longrightarrow> is_bijection (keyMap (Update p s))"
  by (rule mset_bijection [OF _ identity_permutation_bijection])
     (simp add: Update_keyMap_long keyMap_shuffle_mset identity_permutation_length
        del: keyMap_shuffle.simps)

lemma packet_key_bit:
  assumes "k < 8"
  shows "bit (packet_key p) k = bit (p ! (4 + k)) 3"
proof -
  have *: "bit (packet_key p) k \<longleftrightarrow>
      (3 + k = 3 \<and> bit (p ! 4) 3) \<or> (2 + k = 3 \<and> bit (p ! 5) 3) \<or> (1 + k = 3 \<and> bit (p ! 6) 3)
      \<or> (k = 3 \<and> bit (p ! 7) 3) \<or> (k < 8 \<and> 1 \<le> k \<and> k - 1 = 3 \<and> bit (p ! 8) 3)
      \<or> (k < 8 \<and> 2 \<le> k \<and> k - 2 = 3 \<and> bit (p ! 9) 3)
      \<or> (k < 8 \<and> 3 \<le> k \<and> k - 3 = 3 \<and> bit (p ! 10) 3)
      \<or> (k < 8 \<and> 4 \<le> k \<and> k - 4 = 3 \<and> bit (p ! 11) 3)" for k
    unfolding packet_key_def Let_def
    by (simp only: bit_or_iff bit_drop_and_8 bit_push_and_8 bit_and_8 disj_assoc)
  from assms consider "k = 0" | "k = 1" | "k = 2" | "k = 3" | "k = 4" | "k = 5" | "k = 6" | "k = 7"
    by linarith
  then show ?thesis
    by cases (simp_all add: *)
qed

lemma scenario_key: "packet_key scenario_packet = 0xAD"
  by (simp add: packet_key_def scenario_packet_def Let_def)

lemma Update_keyMap_key_schedule:
  "12 \<le> length p \<Longrightarrow> keyMap (Update p s) = key_schedule (packet_key p)"
  unfolding key_schedule_def
  by (simp only: Update_keyMap_long keyMap_shuffle_fold [OF le0])

lemma Update_long_fields:
  "12 \<le> length p \<Longrightarrow>
     securityKey (Update p s) = packet_key p \<and> sNum (Update p s) = 0 \<and> rNum (Update p s) = 0
     \<and> State (Update p s) = State s \<and> proposedKey (Update p s) = proposedKey s"
  by (simp add: Update_def Let_def del: keyMap_fill.simps keyMap_shuffle.simps)

section \<open>Deriving the key: \<open>Update\<close> on a packet of at least 12 bytes\<close>

text \<open>
  Claim C1. For every packet \<open>p\<close> of at least 12 bytes, \<open>Update\<close> sets the security key
  to the byte whose bit \<open>k\<close> (for \<open>k = 0, ..., 7\<close>) is bit 3 of \<open>p[4+k]\<close>; the key map
  becomes the key schedule of the specification for that key byte (identity sequence,
  then 256 rounds of index update and swap); both counters are reset to 0 and the state
  is left as it was. On the scenario packet the key is \<open>0xAD\<close> and the key map is the
  key schedule for \<open>0xAD\<close>.
\<close>

theorem Update_derives_key:
  "(12 \<le> length p \<longrightarrow>
      (\<forall>k<8. bit (securityKey (Update p s)) k = bit (p ! (4 + k)) 3)
      \<and> keyMap (Update p s) = key_schedule (securityKey (Update p s))
      \<and> sNum (Update p s) = 0 \<and> rNum (Update p s) = 0
      \<and> State (Update p s) = State s)
   \<and> securityKey (Update scenario_packet s) = 0xAD
   \<and> keyMap (Update scenario_packet s) = key_schedule 0xAD"
proof -
  have len: "12 \<le> length scenario_packet" by (simp add: scenario_packet_def)
  have a: "12 \<le> length q \<Longrightarrow> keyMap (Update q s) = key_schedule (securityKey (Update q s))" for q
    using Update_keyMap_key_schedule [of q s] Update_long_fields [of q s] by simp
  have b: "securityKey (Update scenario_packet s) = 0xAD"
    using Update_long_fields [OF len, of s] by (simp add: scenario_key)
  show ?thesis
    using a [of p] a [OF len] b Update_long_fields [of p s] packet_key_bit [of _ p]
    by simp
qed

theorem Update_derives_key_witness:
  "12 \<le> length scenario_packet
   \<and> bit (securityKey (Update scenario_packet SecurityKey_zero)) 7 = bit (scenario_packet ! 11) 3
   \<and> keyMap (Update scenario_packet SecurityKey_zero) = key_schedule 0xAD
   \<and> securityKey (Update scenario_packet SecurityKey_zero) = 0xAD
   \<and> sNum (Update scenario_packet SecurityKey_zero) = 0
   \<and> rNum (Update scenario_packet SecurityKey_zero) = 0
   \<and> State (Update scenario_packet SecurityKey_zero) = SecurityEmpty"
proof -
  note t = Update_derives_key [of scenario_packet SecurityKey_zero]
  have len: "12 \<le> length scenario_packet" by (simp add: scenario_packet_def)
  have st: "State SecurityKey_zero = SecurityEmpty" by (simp add: SecurityKey_zero_def)
  from t len have
    "\<forall>k<8. bit (securityKey (Update scenario_packet SecurityKey_zero)) k
        = bit (scenario_packet ! (4 + k)) 3"
    by blast
  then have "bit (securityKey (Update scenario_packet SecurityKey_zero)) 7
      = bit (scenario_packet ! (4 + 7)) 3"
    by simp
  then have b7: "bit (securityKey (Update scenario_packet SecurityKey_zero)) 7
      = bit (scenario_packet ! 11) 3"
    by simp
  from t len have
    "keyMap (Update scenario_packet SecurityKey_zero) = key_schedule 0xAD
     \<and> securityKey (Update scenario_packet SecurityKey_zero) = 0xAD
     \<and> sNum (Update scenario_packet SecurityKey_zero) = 0
     \<and> rNum (Update scenario_packet SecurityKey_zero) = 0
     \<and> State (Update scenario_packet SecurityKey_zero) = State SecurityKey_zero"
    by blast
  then have rest:
    "keyMap (Update scenario_packet SecurityKey_zero) = key_schedule 0xAD
     \<and> securityKey (Update scenario_packet SecurityKey_zero) = 0xAD
     \<and> sNum (Update scenario_packet SecurityKey_zero) = 0
     \<and> rNum (Update scenario_packet SecurityKey_zero) = 0
     \<and> State (Update scenario_packet SecurityKey_zero) = SecurityEmpty"
    by (simp only: st)
  from len b7 rest show ?thesis by blast
qed

text \<open>
  Deriving the key twice from the same packet gives the same session key as deriving it
  once: the same key map, and both counters 0.
\<close>

theorem Update_idempotent: "Update p (Update p s) = Update p s"
  by (simp add: Update_def Let_def del: keyMap_fill.simps keyMap_shuffle.simps)

section \<open>The permutation invariant\<close>

lemma Update_permutation_ok: "permutation_ok (Update p s)"
proof (cases "length p < 12")
  case True
  then show ?thesis by (simp add: permutation_ok_def Update_def)
next
  case False
  then show ?thesis by (simp add: permutation_ok_def Update_bijection)
qed

lemma RKey_permutation_ok:
  "permutation_ok s \<Longrightarrow> \<exists>k s'. RKey b s = Inr (k, s') \<and> keyMap s' = keyMap s"
  using byte_unat_less [of "rNum s"]
  by (auto simp: permutation_ok_def is_bijection_iff RKey_def Let_def)

lemma SKey_permutation_ok:
  "permutation_ok s \<Longrightarrow> \<exists>k s'. SKey b s = Inr (k, s') \<and> keyMap s' = keyMap s"
  using byte_unat_less [of "sNum s"]
  by (auto simp: permutation_ok_def is_bijection_iff SKey_def Let_def)

lemma apply_operation_permutation_ok:
  assumes "permutation_ok s"
  shows "\<exists>s'. apply_operation op s = Inr s' \<and> permutation_ok s'"
proof (cases op)
  case (OpGenerateProposal rnd)
  then show ?thesis using assms by (simp add: GenerateProposal_def Let_def permutation_ok_def)
next
  case OpAcceptProposal
  then show ?thesis
    using Update_permutation_ok [of "accept_packet s" s]
    by (simp add: AcceptProposal_def permutation_ok_def)
next
  case (OpUpdate packet)
  then show ?thesis by (simp add: Update_permutation_ok)
next
  case (OpRKey b)
  then show ?thesis
    using RKey_permutation_ok [OF assms, of b] assms by (auto simp: permutation_ok_def)
next
  case (OpSKey b)
  then show ?thesis
    using SKey_permutation_ok [OF assms, of b] assms by (auto simp: permutation_ok_def)
qed

lemma apply_operations_permutation_ok:
  "permutation_ok s \<Longrightarrow> \<exists>s'. apply_operations ops s = Inr s' \<and> permutation_ok s'"
proof (induction ops arbitrary: s)
  case Nil
  then show ?case by simp
next
  case (Cons op ops)
  from apply_operation_permutation_ok [OF Cons.prems, of op]
  obtain s1 where s1: "apply_operation op s = Inr s1" "permutation_ok s1" by blast
  from Cons.IH [OF s1(2)] s1(1) show ?case by simp
qed

lemma SecurityKey_zero_permutation_ok: "permutation_ok SecurityKey_zero"
  by (simp add: permutation_ok_def SecurityKey_zero_def)

text \<open>
  Claim C3. A fresh session key has an empty key map. From every session key whose key
  map is empty or a bijection of \<open>{0..255}\<close>, every sequence of the operations
  \<open>GenerateProposal\<close>, \<open>AcceptProposal\<close>, \<open>Update\<close>, \<open>RKey\<close> and \<open>SKey\<close> runs without a
  panic and ends in a session key whose key map is again empty or a bijection of
  \<open>{0..255}\<close>. In particular after \<open>Update\<close> with a packet of at least 12 bytes, from any
  session key at all, the key map has 256 entries and every byte value occurs in it
  exactly once.
\<close>

theorem permutation_invariant:
  "permutation_ok SecurityKey_zero
   \<and> (permutation_ok s \<longrightarrow> (\<exists>s'. apply_operations ops s = Inr s' \<and> permutation_ok s'))
   \<and> (12 \<le> length p \<longrightarrow> length (keyMap (Update p s0)) = 256
         \<and> (\<forall>v. count_list (keyMap (Update p s0)) v = 1))"
proof (intro conjI impI)
  show "permutation_ok SecurityKey_zero" by (rule SecurityKey_zero_permutation_ok)
next
  assume "permutation_ok s"
  then show "\<exists>s'. apply_operations ops s = Inr s' \<and> permutation_ok s'"
    by (rule apply_operations_permutation_ok)
next
  assume "12 \<le> length p"
  then have "is_bijection (keyMap (Update p s0))" by (rule Update_bijection)
  then show "length (keyMap (Update p s0)) = 256" 
    and "\<forall>v. count_list (keyMap (Update p s0)) v = 1"
    unfolding is_bijection_iff by blast+
qed

theorem permutation_invariant_witness:
  "permutation_ok SecurityKey_zero
   \<and> (\<exists>s'. apply_operations
          [OpGenerateProposal (\<lambda>i. 7 * i), OpAcceptProposal, OpRKey True, OpUpdate scenario_packet,
           OpSKey False, OpUpdate []] SecurityKey_zero = Inr s' \<and> permutation_ok s')
   \<and> 12 \<le> length scenario_packet
   \<and> length (keyMap (Update scenario_packet SecurityKey_zero)) = 256
   \<and> (\<forall>v. count_list (keyMap (Update scenario_packet SecurityKey_zero)) v = 1)"
proof -
  have len: "12 \<le> length scenario_packet" by (simp add: scenario_packet_def)
  from permutation_invariant
    [of SecurityKey_zero
        "[OpGenerateProposal (\<lambda>i. 7 * i), OpAcceptProposal, OpRKey True, OpUpdate scenario_packet,
          OpSKey False, OpUpdate []]"
        scenario_packet SecurityKey_zero] len
  show ?thesis by blast
qed

section \<open>Clearing the key\<close>

lemma key_calls_empty:
  "keyMap s = [] \<Longrightarrow> key_calls cs s = Inr (replicate (length cs) 0, s)"
proof (induction cs)
  case Nil
  then show ?case by simp
next
  case (Cons c cs)
  then show ?case by (cases c) (simp_all add: RKey_def SKey_def)
qed

text \<open>
  Claim C8. For every packet \<open>p\<close> shorter than 12 bytes, \<open>Update\<close> leaves the key map
  empty, the security key 0 and both counters 0; afterwards \<open>RKey\<close> and \<open>SKey\<close> return
  the sentinel 0 whatever \<open>increment\<close> is, and leave the session key as it is, so that
  every sequence of such calls returns zeros only.
\<close>

theorem Update_short_clears:
  "length p < 12 \<Longrightarrow>
     keyMap (Update p s) = [] \<and> securityKey (Update p s) = 0
     \<and> sNum (Update p s) = 0 \<and> rNum (Update p s) = 0
     \<and> RKey b (Update p s) = Inr (0, Update p s)
     \<and> SKey b (Update p s) = Inr (0, Update p s)
     \<and> key_calls cs (Update p s) = Inr (replicate (length cs) 0, Update p s)"
proof -
  assume "length p < 12"
  then have e: "keyMap (Update p s) = []" by (simp add: Update_def)
  from e key_calls_empty [OF e, of cs] \<open>length p < 12\<close> show ?thesis
    by (simp add: RKey_def SKey_def) (simp add: Update_def)
qed

theorem Update_short_clears_witness:
  "length [0x5e, 0x0c, 0x00 :: byte] < 12
   \<and> keyMap (Update [0x5e, 0x0c, 0x00] SecurityKey_zero) = []
   \<and> securityKey (Update [0x5e, 0x0c, 0x00] SecurityKey_zero) = 0
   \<and> RKey True (Update [0x5e, 0x0c, 0x00] SecurityKey_zero)
       = Inr (0, Update [0x5e, 0x0c, 0x00] SecurityKey_zero)
   \<and> SKey False (Update [0x5e, 0x0c, 0x00] SecurityKey_zero)
       = Inr (0, Update [0x5e, 0x0c, 0x00] SecurityKey_zero)
   \<and> key_calls [CallRKey True, CallSKey True, CallRKey False]
         (Update [0x5e, 0x0c, 0x00] SecurityKey_zero)
       = Inr ([0, 0, 0], Update [0x5e, 0x0c, 0x00] SecurityKey_zero)"
proof -
  have len: "length [0x5e, 0x0c, 0x00 :: byte] < 12" by simp
  have rep: "replicate (length [CallRKey True, CallSKey True, CallRKey False]) (0 :: byte) = [0, 0, 0]"
    by (simp add: numeral_3_eq_3)
  note t = Update_short_clears
    [OF len, of SecurityKey_zero _ "[CallRKey True, CallSKey True, CallRKey False]", unfolded rep]
  from t [of True] t [of False] len show ?thesis by blast
qed

text \<open>
  Claim C10. When no proposal was generated (\<open>proposedKey\<close> is empty), \<open>AcceptProposal\<close>
  hands \<open>Update\<close> the four zero bytes alone, which clears the key: the session key ends
  in state \<open>SecurityKeyAccepted\<close> with an empty key map, security key 0 and counters 0,
  and every later call of \<open>RKey\<close> or \<open>SKey\<close> returns 0.
\<close>

theorem AcceptProposal_without_proposal:
  "proposedKey s = [] \<Longrightarrow>
     accept_packet s = [0, 0, 0, 0]
     \<and> AcceptProposal s =
         s\<lparr>keyMap := [], securityKey := 0, sNum := 0, rNum := 0, State := SecurityKeyAccepted\<rparr>
     \<and> State (AcceptProposal s) = SecurityKeyAccepted \<and> keyMap (AcceptProposal s) = []
     \<and> RKey b (AcceptProposal s) = Inr (0, AcceptProposal s)
     \<and> SKey b (AcceptProposal s) = Inr (0, AcceptProposal s)
     \<and> key_calls cs (AcceptProposal s) = Inr (replicate (length cs) 0, AcceptProposal s)"
proof -
  assume p: "proposedKey s = []"
  then have a: "accept_packet s = [0, 0, 0, 0]" by (simp add: accept_packet_def)
  then have b: "AcceptProposal s =
      s\<lparr>keyMap := [], securityKey := 0, sNum := 0, rNum := 0, State := SecurityKeyAccepted\<rparr>"
    by (simp add: AcceptProposal_def Update_def)
  then have e: "keyMap (AcceptProposal s) = []" by simp
  have c: "State (AcceptProposal s) = SecurityKeyAccepted" by (simp add: AcceptProposal_def)
  from a b c e key_calls_empty [OF e, of cs] show ?thesis
    by (simp add: RKey_def SKey_def)
qed

theorem AcceptProposal_without_proposal_witness:
  "proposedKey SecurityKey_zero = []
   \<and> accept_packet SecurityKey_zero = [0, 0, 0, 0]
   \<and> State (AcceptProposal SecurityKey_zero) = SecurityKeyAccepted
   \<and> keyMap (AcceptProposal SecurityKey_zero) = []
   \<and> RKey True (AcceptProposal SecurityKey_zero) = Inr (0, AcceptProposal SecurityKey_zero)
   \<and> SKey True (AcceptProposal SecurityKey_zero) = Inr (0, AcceptProposal SecurityKey_zero)
   \<and> key_calls [CallSKey True, CallRKey False] (AcceptProposal SecurityKey_zero)
       = Inr ([0, 0], AcceptProposal SecurityKey_zero)"
proof -
  have p: "proposedKey SecurityKey_zero = []" by (simp add: SecurityKey_zero_def)
  have rep: "replicate (length [CallSKey True, CallRKey False]) (0 :: byte) = [0, 0]"
    by (simp add: numeral_2_eq_2)
  note t = AcceptProposal_without_proposal
    [OF p, of True "[CallSKey True, CallRKey False]", unfolded rep]
  from t p show ?thesis by blast
qed

section \<open>Key rotation\<close>

lemma RKey_true_calls:
  "length (keyMap s) = 256 \<Longrightarrow>
     key_calls (replicate n (CallRKey True)) s
       = Inr (map (\<lambda>k. keyMap s ! unat (rNum s + of_nat k)) [0..<n], s\<lparr>rNum := rNum s + of_nat n\<rparr>)"
proof (induction n arbitrary: s)
  case 0
  then show ?case by simp
next
  case (Suc n)
  let ?s1 = "s\<lparr>rNum := rNum s + 1\<rparr>"
  have r: "RKey True s = Inr (keyMap s ! unat (rNum s), ?s1)"
    using Suc.prems byte_unat_less [of "rNum s"] by (simp add: RKey_def Let_def)
  have "length (keyMap ?s1) = 256" using Suc.prems by simp
  from Suc.IH [OF this] r show ?case
    by (simp add: map_upt_Suc add.assoc del: upt_Suc)
qed

lemma SKey_true_calls:
  "length (keyMap s) = 256 \<Longrightarrow>
     key_calls (replicate n (CallSKey True)) s
       = Inr (map (\<lambda>k. keyMap s ! unat (sNum s + of_nat k)) [0..<n], s\<lparr>sNum := sNum s + of_nat n\<rparr>)"
proof (induction n arbitrary: s)
  case 0
  then show ?case by simp
next
  case (Suc n)
  let ?s1 = "s\<lparr>sNum := sNum s + 1\<rparr>"
  have r: "SKey True s = Inr (keyMap s ! unat (sNum s), ?s1)"
    using Suc.prems byte_unat_less [of "sNum s"] by (simp add: SKey_def Let_def)
  have "length (keyMap ?s1) = 256" using Suc.prems by simp
  from Suc.IH [OF this] r show ?case
    by (simp add: map_upt_Suc add.assoc del: upt_Suc)
qed

lemma nth_bytes_upto:
  "length km = n \<Longrightarrow> n \<le> 256 \<Longrightarrow> map (\<lambda>k. km ! unat (of_nat k :: byte)) [0..<n] = km"
proof -
  assume l: "length km = n" and n: "n \<le> 256"
  have "map (\<lambda>k. km ! unat (of_nat k :: byte)) [0..<n] = map (\<lambda>k. km ! k) [0..<n]"
    using n by (intro map_cong refl) (simp add: byte_of_nat_inverse)
  also have "\<dots> = km" using map_nth [of km] by (simp only: l)
  finally show ?thesis .
qed

lemma one_round_of_keys:
  assumes "length km = 256"
  shows "map (\<lambda>k. km ! unat (of_nat k :: byte)) [0..<257] = km @ [km ! 0]"
proof -
  have "[0..<257] = [0..<256] @ [256]"
    using upt_Suc_append [of 0 256] by (simp only: le0 if_True) simp
  then have "map (\<lambda>k. km ! unat (of_nat k :: byte)) [0..<257]
      = map (\<lambda>k. km ! unat (of_nat k :: byte)) [0..<256] @ [km ! unat (of_nat 256 :: byte)]"
    by (simp only: map_append list.map)
  also have "\<dots> = km @ [km ! 0]"
    using nth_bytes_upto [OF assms] by simp
  finally show ?thesis .
qed

lemma full_round_of_keys:
  assumes "length km = 256"
  shows "map (\<lambda>k. km ! unat (of_nat k :: byte)) [0..<256] = km"
  using nth_bytes_upto [OF assms] by simp

lemma RKey_rounds:
  assumes "length (keyMap s) = 256" and "rNum s = 0"
  shows "key_calls (replicate 256 (CallRKey True)) s = Inr (keyMap s, s)"
    and "key_calls (replicate 257 (CallRKey True)) s = Inr (keyMap s @ [keyMap s ! 0], s\<lparr>rNum := 1\<rparr>)"
proof -
  have "(256 :: byte) = 0" by simp
  then have z: "s\<lparr>rNum := 256\<rparr> = s" using assms(2) by simp
  show "key_calls (replicate 256 (CallRKey True)) s = Inr (keyMap s, s)"
    using RKey_true_calls [OF assms(1), of 256]
    by (simp only: assms(2) add_0 full_round_of_keys [OF assms(1)]) (simp add: z)
  show "key_calls (replicate 257 (CallRKey True)) s = Inr (keyMap s @ [keyMap s ! 0], s\<lparr>rNum := 1\<rparr>)"
    using RKey_true_calls [OF assms(1), of 257]
    by (simp only: assms(2) add_0 one_round_of_keys [OF assms(1)]) simp
qed

lemma SKey_rounds:
  assumes "length (keyMap s) = 256" and "sNum s = 0"
  shows "key_calls (replicate 256 (CallSKey True)) s = Inr (keyMap s, s)"
    and "key_calls (replicate 257 (CallSKey True)) s = Inr (keyMap s @ [keyMap s ! 0], s\<lparr>sNum := 1\<rparr>)"
proof -
  have "(256 :: byte) = 0" by simp
  then have z: "s\<lparr>sNum := 256\<rparr> = s" using assms(2) by simp
  show "key_calls (replicate 256 (CallSKey True)) s = Inr (keyMap s, s)"
    using SKey_true_calls [OF assms(1), of 256]
    by (simp only: assms(2) add_0 full_round_of_keys [OF assms(1)]) (simp add: z)
  show "key_calls (replicate 257 (CallSKey True)) s = Inr (keyMap s @ [keyMap s ! 0], s\<lparr>sNum := 1\<rparr>)"
    using SKey_true_calls [OF assms(1), of 257]
    by (simp only: assms(2) add_0 one_round_of_keys [OF assms(1)]) simp
qed

text \<open>
  Claim C7. After \<open>Update\<close> with a packet of at least 12 bytes, 256 successive calls
  \<open>RKey(true)\<close> return the entries of the key map in index order (so every byte value
  exactly once, the key map being a bijection) and bring the counter back to where it
  was; the 257th call returns entry 0 again, the counter having wrapped from 255 to 0.
  The same holds for \<open>SKey(true)\<close> and its counter.
\<close>

theorem key_rotation:
  assumes "12 \<le> length p"
  shows "key_calls (replicate 256 (CallRKey True)) (Update p s)
            = Inr (keyMap (Update p s), Update p s)
       \<and> key_calls (replicate 257 (CallRKey True)) (Update p s)
            = Inr (keyMap (Update p s) @ [keyMap (Update p s) ! 0], (Update p s)\<lparr>rNum := 1\<rparr>)
       \<and> key_calls (replicate 256 (CallSKey True)) (Update p s)
            = Inr (keyMap (Update p s), Update p s)
       \<and> key_calls (replicate 257 (CallSKey True)) (Update p s)
            = Inr (keyMap (Update p s) @ [keyMap (Update p s) ! 0], (Update p s)\<lparr>sNum := 1\<rparr>)
       \<and> is_bijection (keyMap (Update p s))"
proof -
  have b: "is_bijection (keyMap (Update p s))" using assms by (rule Update_bijection)
  then have l: "length (keyMap (Update p s)) = 256" by (simp add: is_bijection_iff)
  have r: "rNum (Update p s) = 0" and t: "sNum (Update p s) = 0"
    using Update_long_fields [OF assms, of s] by simp_all
  from RKey_rounds [OF l r] SKey_rounds [OF l t] b show ?thesis by blast
qed

theorem key_rotation_witness:
  "12 \<le> length scenario_packet
   \<and> key_calls (replicate 256 (CallRKey True)) (Update scenario_packet SecurityKey_zero)
        = Inr (keyMap (Update scenario_packet SecurityKey_zero), Update scenario_packet SecurityKey_zero)
   \<and> key_calls (replicate 257 (CallRKey True)) (Update scenario_packet SecurityKey_zero)
        = Inr (keyMap (Update scenario_packet SecurityKey_zero)
                 @ [keyMap (Update scenario_packet SecurityKey_zero) ! 0],
               (Update scenario_packet SecurityKey_zero)\<lparr>rNum := 1\<rparr>)
   \<and> key_calls (replicate 257 (CallSKey True)) (Update scenario_packet SecurityKey_zero)
        = Inr (keyMap (Update scenario_packet SecurityKey_zero)
                 @ [keyMap (Update scenario_packet SecurityKey_zero) ! 0],
               (Update scenario_packet SecurityKey_zero)\<lparr>sNum := 1\<rparr>)"
proof -
  have len: "12 \<le> length scenario_packet" by (simp add: scenario_packet_def)
  from key_rotation [OF len, of SecurityKey_zero] len show ?thesis by blast
qed

section \<open>\<open>XorMessageWith\<close>\<close>

lemma XorMessageWith_twice: "XorMessageWith (XorMessageWith b x) x = b"
  by (simp add: XorMessageWith_def o_def xor.assoc)

lemma XorMessageWith_length: "length (XorMessageWith b x) = length b"
  by (simp add: XorMessageWith_def)

lemma XorMessageWith_append:
  "XorMessageWith (a @ b) x = XorMessageWith a x @ XorMessageWith b x"
  by (simp add: XorMessageWith_def)

lemma XorMessageWith_loop_other:
  "a \<noteq> msg \<Longrightarrow> XorMessageWith_loop message msg n i x st ! a = st ! a"
  by (induction message msg n i x st rule: XorMessageWith_loop.induct)
     (simp del: XorMessageWith_loop.simps add: XorMessageWith_loop.simps [of _ _ _ i for i])

lemma XorMessageWith_loop_length:
  "length (XorMessageWith_loop message msg n i x st) = length st"
  by (induction message msg n i x st rule: XorMessageWith_loop.induct)
     (simp del: XorMessageWith_loop.simps add: XorMessageWith_loop.simps [of _ _ _ i for i])

lemma XorMessageWith_loop_result:
  "message \<noteq> msg \<Longrightarrow> msg < length st \<Longrightarrow> length (st ! msg) = n \<Longrightarrow> length (st ! message) = n \<Longrightarrow> i \<le> n
   \<Longrightarrow> XorMessageWith_loop message msg n i x st ! msg
     = take i (st ! msg) @ map (\<lambda>b. b XOR x) (drop i (st ! message))"
proof (induction message msg n i x st rule: XorMessageWith_loop.induct)
  case (1 message msg n i x st)
  show ?case
  proof (cases "i < n")
    case False
    with 1 show ?thesis by simp
  next
    case True
    let ?st = "st[msg := (st ! msg)[i := (st ! message) ! i XOR x]]"
    have "XorMessageWith_loop message msg n i x st ! msg
        = XorMessageWith_loop message msg n (i + 1) x ?st ! msg"
      using True by simp
    also have "\<dots> = take (i + 1) (?st ! msg) @ map (\<lambda>b. b XOR x) (drop (i + 1) (?st ! message))"
      using "1.IH" [OF True] "1.prems" True by simp
    also have "\<dots> = take i (st ! msg) @ map (\<lambda>b. b XOR x) (drop i (st ! message))"
      using "1.prems" True
      by (simp add: take_Suc_conv_app_nth Cons_nth_drop_Suc [symmetric])
    finally show ?thesis .
  qed
qed

lemma XorMessageWith_store_result:
  assumes "message < length st"
  shows "XorMessageWith_store message x st
     = (length st, st @ [XorMessageWith (st ! message) x])"
proof -
  let ?n = "length (st ! message)"
  let ?st1 = "st @ [replicate ?n 0]"
  let ?st2 = "XorMessageWith_loop message (length st) ?n 0 x ?st1"
  have m: "?st1 ! message = st ! message" using assms by (simp add: nth_append)
  have len: "length ?st2 = length st + 1" by (simp only: XorMessageWith_loop_length) simp
  have new: "?st2 ! length st = XorMessageWith (st ! message) x"
    using XorMessageWith_loop_result [of message "length st" ?st1 ?n 0 x] assms m
    by (simp add: XorMessageWith_def del: XorMessageWith_loop.simps)
  have old: "?st2 ! a = st ! a" if "a < length st" for a
    using XorMessageWith_loop_other [of a "length st" message ?n 0 x ?st1] that
    by (simp add: nth_append del: XorMessageWith_loop.simps)
  have "?st2 = st @ [XorMessageWith (st ! message) x]"
  proof (rule nth_equalityI)
    show "length ?st2 = length (st @ [XorMessageWith (st ! message) x])"
      using len by (simp del: XorMessageWith_loop.simps)
  next
    fix a assume "a < length ?st2"
    then have "a < length st \<or> a = length st" using len by linarith
    then show "?st2 ! a = (st @ [XorMessageWith (st ! message) x]) ! a"
      using old new by (auto simp: nth_append simp del: XorMessageWith_loop.simps)
  qed
  then show ?thesis
    using m by (simp add: XorMessageWith_store_def Let_def del: XorMessageWith_loop.simps)
qed

text \<open>
  Claim C9. XORing a buffer twice with the same byte gives the buffer back, and the
  result of \<open>XorMessageWith\<close> has the length of its input. At the level of the store, the
  result is a newly allocated slice and every slice that existed before the call, the
  input among them, is as it was.
\<close>

theorem XorMessageWith_involution:
  "XorMessageWith (XorMessageWith b x) x = b
   \<and> length (XorMessageWith b x) = length b
   \<and> (message < length st \<longrightarrow>
        XorMessageWith_store message x st = (length st, st @ [XorMessageWith (st ! message) x]))"
  using XorMessageWith_store_result [of message st x]
  by (simp add: XorMessageWith_twice XorMessageWith_length)

theorem XorMessageWith_involution_witness:
  "XorMessageWith (XorMessageWith [0xf6, 0x04, 0x01] 0x5a) 0x5a = [0xf6, 0x04, 0x01]
   \<and> (0 :: nat) < length [[0xf6, 0x04, 0x01 :: byte]]
   \<and> XorMessageWith_store 0 0x5a [[0xf6, 0x04, 0x01]]
        = (1, [[0xf6, 0x04, 0x01], [0xac, 0x5e, 0x5b]])"
proof -
  have l: "(0 :: nat) < length [[0xf6, 0x04, 0x01 :: byte]]" by simp
  have x: "XorMessageWith [0xf6, 0x04, 0x01] 0x5a = [0xac, 0x5e, 0x5b]"
    by (simp add: XorMessageWith_def)
  from XorMessageWith_involution [of "[0xf6, 0x04, 0x01]" "0x5a" 0 "[[0xf6, 0x04, 0x01]]"] l x
  show ?thesis by simp
qed

section \<open>\<open>Checksum\<close>\<close>

lemma Checksum_loop_sum:
  "unat bound \<le> length m \<Longrightarrow> unat i \<le> unat bound \<Longrightarrow>
     Checksum_loop m bound i acc
       = Inr (acc + sum_list (take (unat bound - unat i) (drop (unat i) m)))"
proof (induction m bound i acc rule: Checksum_loop.induct)
  case (1 m bound i acc)
  show ?case
  proof (cases "bound \<le> i")
    case True
    then have "unat bound \<le> unat i" by (simp add: word_le_nat_alt)
    with True show ?thesis by simp
  next
    case False
    then have lt: "unat i < unat bound" by (simp add: word_less_nat_alt not_le)
    then have inc: "unat (i + 1) = unat i + 1" by (rule byte_inc)
    have inr: "unat i < length m" using lt "1.prems" by simp
    have "Checksum_loop m bound i acc = Checksum_loop m bound (i + 1) (m ! unat i + acc)"
      using False inr by simp
    also have "\<dots> = Inr (m ! unat i + acc
        + sum_list (take (unat bound - unat (i + 1)) (drop (unat (i + 1)) m)))"
      using "1.IH" [OF False inr] "1.prems" lt inc by simp
    also have "take (unat bound - unat i) (drop (unat i) m)
        = m ! unat i # take (unat bound - unat (i + 1)) (drop (unat (i + 1)) m)"
    proof -
      have "unat bound - unat i = Suc (unat bound - unat (i + 1))" using lt inc by simp
      moreover have "drop (unat i) m = m ! unat i # drop (unat (i + 1)) m"
        using inr inc by (simp add: Cons_nth_drop_Suc)
      ultimately show ?thesis by simp
    qed
    then have "m ! unat i + acc + sum_list (take (unat bound - unat (i + 1)) (drop (unat (i + 1)) m))
        = acc + sum_list (take (unat bound - unat i) (drop (unat i) m))"
      by (simp add: ac_simps)
    finally show ?thesis .
  qed
qed

lemma Checksum_sum:
  assumes "2 \<le> length m" and "unat (m ! 1 + 1) \<le> length m"
  shows "Checksum m = Inr (sum_list (take (unat (m ! 1 + 1)) m))"
proof -
  have b: "m ! 1 + 2 - 1 = m ! 1 + 1" by simp
  have "Checksum m = Checksum_loop m (m ! 1 + 1) 0 0"
    unfolding Checksum_def Let_def b using assms(1) by (simp del: Checksum_loop.simps)
  also have "\<dots> = Inr (0 + sum_list (take (unat (m ! 1 + 1) - unat (0 :: byte)) (drop (unat (0 :: byte)) m)))"
    using assms(2) by (intro Checksum_loop_sum) simp_all
  finally show ?thesis by simp
qed

text \<open>
  Whenever the length byte is not 255 and the message has at least \<open>message[1] + 2\<close>
  bytes, \<open>Checksum\<close> returns, without a panic, the sum of the specification.
\<close>

theorem Checksum_no_wrap:
  assumes "m ! 1 \<noteq> 255" and "unat (m ! 1) + 2 \<le> length m"
  shows "Checksum m = Inr (Checksum_spec m)"
proof -
  have "unat (m ! 1) \<noteq> 255"
  proof
    assume u: "unat (m ! 1) = 255"
    have "m ! 1 = of_nat (unat (m ! 1))" by simp
    also have "\<dots> = 255" by (simp only: u) simp
    finally show False using assms(1) by simp
  qed
  then have "unat (m ! 1) < 255" using byte_unat_less [of "m ! 1"] by simp
  then have "unat (m ! 1 + 1) = unat (m ! 1) + 1"
    using byte_inc [of "m ! 1" 255] by simp
  then show ?thesis
    using Checksum_sum [of m] assms(2) by (simp add: Checksum_spec_def)
qed

theorem Checksum_no_wrap_witness:
  "[0x6f, 0x02, 0x00, 0x71 :: byte] ! 1 \<noteq> 255
   \<and> unat ([0x6f, 0x02, 0x00, 0x71 :: byte] ! 1) + 2 \<le> length [0x6f, 0x02, 0x00, 0x71 :: byte]
   \<and> Checksum [0x6f, 0x02, 0x00, 0x71] = Inr 0x71"
proof -
  have a: "[0x6f, 0x02, 0x00, 0x71 :: byte] ! 1 \<noteq> 255" by simp
  have b: "unat ([0x6f, 0x02, 0x00, 0x71 :: byte] ! 1) + 2 \<le> length [0x6f, 0x02, 0x00, 0x71 :: byte]"
    by simp
  have c: "Checksum_spec [0x6f, 0x02, 0x00, 0x71] = 0x71" by (simp add: Checksum_spec_def)
  from Checksum_no_wrap [OF a b] a b show ?thesis by (simp add: c)
qed

lemma Checksum_wrap:
  assumes "m ! 1 = 255" and "2 \<le> length m"
  shows "Checksum m = Inr 0"
  using assms by (simp add: Checksum_def)

lemma Checksum_guarded:
  assumes "unat (m ! 1) + 2 \<le> length m"
  shows "Checksum m = Inr (sum_list (take (unat (m ! 1 + 1)) m))"
proof -
  have "unat (m ! 1 + 1) \<le> unat (m ! 1) + 1" using byte_add_le [of "m ! 1" 1] by simp
  then show ?thesis using assms by (intro Checksum_sum) simp_all
qed

lemma ValidateChecksum_eq:
  assumes "2 \<le> length m"
  shows "ValidateChecksum m
     = Inr (unat (m ! 1) + 2 \<le> length m
            \<and> sum_list (take (unat (m ! 1 + 1)) m) = m ! (unat (m ! 1) + 1))"
  using assms Checksum_guarded [of m]
  by (auto simp: ValidateChecksum_def Let_def)

text \<open>
  Claim C5: for every message of at least \<open>message[1] + 2\<close> bytes, \<open>Checksum\<close> is the sum
  modulo 256 of \<open>message[0 .. length-2]\<close>, with \<open>length = message[1] + 2\<close> an ordinary
  integer, so that \<open>message[1] = 255\<close> gives a sum over \<open>message[0 .. 255]\<close>. The code
  computes \<open>length\<close> in a byte. Whenever \<open>message[1]\<close> is not 255 it returns the sum of the
  claim, as shown above; for \<open>message[1] = 255\<close> the byte \<open>length\<close> is 1 and nothing is
  summed. On the message \<open>[2, 255, 0, ..., 0]\<close> of 257 bytes the code returns 0 where the
  sum of the claim is 1, and \<open>ValidateChecksum\<close>, whose \<open>length\<close> is an \<open>int\<close>, accepts the
  message against that 0.
\<close>

theorem Checksum_wraps_at_255:
  "length wrapping_message = 257 \<and> wrapping_message ! 1 = 255
   \<and> Checksum wrapping_message = Inr 0 \<and> Checksum_spec wrapping_message = 1
   \<and> ValidateChecksum wrapping_message = Inr True"
  by (simp add: wrapping_message_def Checksum_def word_le_nat_alt Checksum_spec_def
      ValidateChecksum_def nth_Cons' sum_list_replicate)

section \<open>\<open>ValidateChecksum\<close>\<close>

text \<open>
  Claim C6, as amended. For every message of at least 2 bytes \<open>ValidateChecksum\<close> returns
  without a panic: false when the message is shorter than \<open>message[1] + 2\<close>, and
  otherwise whether \<open>Checksum\<close> of the message, which does not panic either, is the byte
  \<open>message[length-1]\<close>.
\<close>

theorem ValidateChecksum_guarded:
  assumes "2 \<le> length m"
  shows "ValidateChecksum m
     = Inr (\<not> length m < unat (m ! 1) + 2 \<and> Checksum m = Inr (m ! (unat (m ! 1) + 2 - 1)))"
proof (cases "length m < unat (m ! 1) + 2")
  case True
  then show ?thesis using assms by (simp add: ValidateChecksum_def)
next
  case False
  then have "Checksum m = Inr (sum_list (take (unat (m ! 1 + 1)) m))"
    by (intro Checksum_guarded) simp
  then show ?thesis using assms False by (simp add: ValidateChecksum_def)
qed

theorem ValidateChecksum_guarded_witness:
  "2 \<le> length [0x10, 0x03, 0xAA, 0xBB :: byte]
   \<and> ValidateChecksum [0x10, 0x03, 0xAA, 0xBB] = Inr False"
proof -
  have l: "2 \<le> length [0x10, 0x03, 0xAA, 0xBB :: byte]" by simp
  from ValidateChecksum_guarded [OF l] l show ?thesis by simp
qed

text \<open>
  As the claim was written, for messages of any length, it fails: on a message of fewer
  than 2 bytes the read of \<open>message[1]\<close> is out of range.
\<close>

theorem ValidateChecksum_short_panics:
  "ValidateChecksum [] = Inl IndexOutOfRange \<and> ValidateChecksum [0x10] = Inl IndexOutOfRange"
  by (simp add: ValidateChecksum_def)

section \<open>\<open>ValidateAndDecodeMessage\<close>\<close>

lemma ValidateChecksum_total: "2 \<le> length m \<Longrightarrow> \<exists>b. ValidateChecksum m = Inr b"
  by (simp add: ValidateChecksum_eq)


lemma ValidateAndDecodeMessage_cases:
  assumes "4 \<le> length m"
  shows "ValidateAndDecodeMessage m =
     (if ValidateChecksum (XorMessageWith m (m ! 2)) = Inr True
      then decode_split m (XorMessageWith m (m ! 2)) (m ! 2)
      else if ValidateChecksum (XorMessageWith m (m ! 2 XOR 1)) = Inr True
      then decode_split m (XorMessageWith m (m ! 2 XOR 1)) (m ! 2 XOR 1)
      else Inr (None, 0, None))"
proof -
  have l: "2 \<le> length (XorMessageWith m k)" for k
    using assms by (simp add: XorMessageWith_length)
  obtain b1 where b1: "ValidateChecksum (XorMessageWith m (m ! 2)) = Inr b1"
    using ValidateChecksum_total [OF l] by blast
  obtain b2 where b2: "ValidateChecksum (XorMessageWith m (m ! 2 XOR 1)) = Inr b2"
    using ValidateChecksum_total [OF l] by blast
  show ?thesis
    using assms by (simp add: ValidateAndDecodeMessage_def Let_def b1 b2)
qed










section \<open>Decoding a buffer of two frames\<close>

lemma frame_ok_append:
  assumes "frame_ok g"
  shows "ValidateChecksum (g @ r) = Inr True"
proof -
  from assms have l2: "2 \<le> length g" and len: "length g = unat (g ! 1) + 2"
    and ok: "ValidateChecksum g = Inr True"
    by (simp_all add: frame_ok_def)
  have one: "(g @ r) ! 1 = g ! 1" using l2 by (simp add: nth_append)
  have "unat (g ! 1 + 1) \<le> unat (g ! 1) + 1" using byte_add_le [of "g ! 1" 1] by simp
  then have t: "take (unat (g ! 1 + 1)) (g @ r) = take (unat (g ! 1 + 1)) g"
    using len by simp
  have w: "(g @ r) ! (unat (g ! 1) + 1) = g ! (unat (g ! 1) + 1)"
    using len by (simp add: nth_append)
  from ok l2 have s: "sum_list (take (unat (g ! 1 + 1)) g) = g ! (unat (g ! 1) + 1)"
    by (simp add: ValidateChecksum_eq)
  have "ValidateChecksum (g @ r)
      = Inr (unat ((g @ r) ! 1) + 2 \<le> length (g @ r)
             \<and> sum_list (take (unat ((g @ r) ! 1 + 1)) (g @ r))
                 = (g @ r) ! (unat ((g @ r) ! 1) + 1))"
    using l2 by (intro ValidateChecksum_eq) simp
  also have "\<dots> = Inr True"
    unfolding one t w s using len by simp
  finally show ?thesis .
qed

lemma decode_split_frame:
  assumes "frame_ok g" and "unat (g ! 1) \<le> 253" and "length f1 = length g"
  shows "decode_split (f1 @ f2) (g @ r) x
     = Inr (Some g, x, if f2 = [] then None else Some f2)"
proof -
  from assms(1) have l2: "2 \<le> length g" and len: "length g = unat (g ! 1) + 2"
    by (simp_all add: frame_ok_def)
  have one: "(g @ r) ! 1 = g ! 1" using l2 by (simp add: nth_append)
  have "unat (g ! 1) + unat (2 :: byte) < 2 ^ LENGTH(8)" using assms(2) by simp
  then have "unat (g ! 1 + 2) = unat (g ! 1) + unat (2 :: byte)" by (simp only: unat_add_lem)
  then have u: "unat (g ! 1 + 2) = length g" using len by simp
  show ?thesis
    unfolding decode_split_def Let_def one u using assms(3) by simp
qed

text \<open>
  Claim C2, as amended. Let \<open>frame1\<close>, of at least 3 bytes, de-obfuscate under the key \<open>x\<close>
  to exactly one checksummed frame whose length byte is at most 253, where \<open>x\<close> is the key
  the decoder reads first, \<open>frame1[2]\<close>, or \<open>x\<close> is \<open>frame1[2] ^ 1\<close> and \<open>frame1[2]\<close> does not
  validate on the whole buffer. Then for every \<open>frame2\<close> (the buffer having at least 4
  bytes) \<open>ValidateAndDecodeMessage(frame1 ++ frame2)\<close> returns \<open>frame1\<close> de-obfuscated, the
  key \<open>x\<close>, and \<open>frame2\<close> unchanged as the remainder; when \<open>frame2\<close> is empty, the buffer
  being exactly one frame, the remainder is absent.
\<close>

theorem decode_trailing_split:
  assumes "frame_ok (XorMessageWith f1 x)"
    and "unat (XorMessageWith f1 x ! 1) \<le> 253"
    and "4 \<le> length (f1 @ f2)"
    and "x = f1 ! 2
         \<or> (x = f1 ! 2 XOR 1 \<and> ValidateChecksum (XorMessageWith (f1 @ f2) (f1 ! 2)) \<noteq> Inr True)"
    and "3 \<le> length f1"
  shows "ValidateAndDecodeMessage (f1 @ f2)
     = Inr (Some (XorMessageWith f1 x), x, if f2 = [] then None else Some f2)"
proof -
  let ?g = "XorMessageWith f1 x"
  have lg: "length f1 = length ?g" by (simp add: XorMessageWith_length)
  from assms(5) have "3 \<le> length ?g" using lg by simp
  then have two: "(f1 @ f2) ! 2 = f1 ! 2" using lg by (simp add: nth_append)
  have v: "ValidateChecksum (XorMessageWith (f1 @ f2) x) = Inr True"
    using frame_ok_append [OF assms(1)] by (simp add: XorMessageWith_append)
  have d: "decode_split (f1 @ f2) (XorMessageWith (f1 @ f2) x) x
      = Inr (Some ?g, x, if f2 = [] then None else Some f2)"
    using decode_split_frame [OF assms(1,2) lg] by (simp add: XorMessageWith_append)
  from assms(4) show ?thesis
  proof
    assume "x = f1 ! 2"
    with v d show ?thesis
      by (simp add: ValidateAndDecodeMessage_cases [OF assms(3)] two)
  next
    assume "x = f1 ! 2 XOR 1 \<and> ValidateChecksum (XorMessageWith (f1 @ f2) (f1 ! 2)) \<noteq> Inr True"
    with v d show ?thesis
      by (simp add: ValidateAndDecodeMessage_cases [OF assms(3)] two)
  qed
qed

theorem decode_trailing_split_witness:
  "frame_ok (XorMessageWith [0x5c, 0x31, 0x33, 0x42] 0x33)
   \<and> unat (XorMessageWith [0x5c, 0x31, 0x33, 0x42] 0x33 ! 1) \<le> 253
   \<and> 4 \<le> length ([0x5c, 0x31, 0x33, 0x42] @ [0x10, 0x02, 0x00, 0x12 :: byte])
   \<and> (0x33 :: byte) = [0x5c, 0x31, 0x33, 0x42] ! 2
   \<and> 3 \<le> length [0x5c, 0x31, 0x33, 0x42 :: byte]
   \<and> ValidateAndDecodeMessage ([0x5c, 0x31, 0x33, 0x42] @ [0x10, 0x02, 0x00, 0x12])
        = Inr (Some [0x6f, 0x02, 0x00, 0x71], 0x33, Some [0x10, 0x02, 0x00, 0x12])
   \<and> frame_ok (XorMessageWith [0x5c, 0x31, 0x32, 0x41] 0x33)
   \<and> (0x33 :: byte) = [0x5c, 0x31, 0x32, 0x41] ! 2 XOR 1
   \<and> ValidateChecksum (XorMessageWith ([0x5c, 0x31, 0x32, 0x41] @ []) ([0x5c, 0x31, 0x32, 0x41] ! 2))
        \<noteq> Inr True
   \<and> ValidateAndDecodeMessage ([0x5c, 0x31, 0x32, 0x41] @ [])
        = Inr (Some [0x6f, 0x02, 0x01, 0x72], 0x33, None)"
proof -
  have x: "XorMessageWith [0x5c, 0x31, 0x33, 0x42] 0x33 = [0x6f, 0x02, 0x00, 0x71]"
    by (simp add: XorMessageWith_def)
  have a: "frame_ok (XorMessageWith [0x5c, 0x31, 0x33, 0x42] 0x33)"
    unfolding x by (simp add: frame_ok_def ValidateChecksum_def Checksum_def word_le_nat_alt)
  have b: "unat (XorMessageWith [0x5c, 0x31, 0x33, 0x42] 0x33 ! 1) \<le> 253"
    unfolding x by simp
  have c: "4 \<le> length ([0x5c, 0x31, 0x33, 0x42] @ [0x10, 0x02, 0x00, 0x12 :: byte])" by simp
  have d: "(0x33 :: byte) = [0x5c, 0x31, 0x33, 0x42] ! 2" by simp
  have e: "3 \<le> length [0x5c, 0x31, 0x33, 0x42 :: byte]" by simp
  from decode_trailing_split [OF a b c disjI1 [OF d] e]
  have first: "ValidateAndDecodeMessage ([0x5c, 0x31, 0x33, 0x42] @ [0x10, 0x02, 0x00, 0x12])
      = Inr (Some [0x6f, 0x02, 0x00, 0x71], 0x33, Some [0x10, 0x02, 0x00, 0x12])"
    unfolding x by simp
  have y: "XorMessageWith [0x5c, 0x31, 0x32, 0x41] 0x33 = [0x6f, 0x02, 0x01, 0x72]"
    by (simp add: XorMessageWith_def)
  have a': "frame_ok (XorMessageWith [0x5c, 0x31, 0x32, 0x41] 0x33)"
    unfolding y by (simp add: frame_ok_def ValidateChecksum_def Checksum_def word_le_nat_alt)
  have b': "unat (XorMessageWith [0x5c, 0x31, 0x32, 0x41] 0x33 ! 1) \<le> 253"
    unfolding y by simp
  have c': "4 \<le> length ([0x5c, 0x31, 0x32, 0x41] @ ([] :: byte list))" by simp
  have d': "(0x33 :: byte) = [0x5c, 0x31, 0x32, 0x41] ! 2 XOR 1" by simp
  have f': "ValidateChecksum (XorMessageWith ([0x5c, 0x31, 0x32, 0x41] @ []) ([0x5c, 0x31, 0x32, 0x41] ! 2))
      \<noteq> Inr True"
    by (simp add: XorMessageWith_def ValidateChecksum_def)
  have e': "3 \<le> length [0x5c, 0x31, 0x32, 0x41 :: byte]" by simp
  from decode_trailing_split [OF a' b' c' disjI2 [OF conjI [OF d' f']] e']
  have second: "ValidateAndDecodeMessage ([0x5c, 0x31, 0x32, 0x41] @ [])
      = Inr (Some [0x6f, 0x02, 0x01, 0x72], 0x33, None)"
    unfolding y by simp
  from a b c d e first a' d' f' second show ?thesis by blast
qed

text \<open>
  The limit on the length byte cannot be dropped: in \<open>ValidateAndDecodeMessage\<close> too
  \<open>length := msg[1] + 2\<close> is a byte, so a valid frame of 256 bytes, with key 0, is
  decoded to the empty frame and handed back whole as the remainder.
\<close>

lemma long_frame_facts:
  "length long_frame = 256" "long_frame ! 1 = 254" "long_frame ! Suc 0 = 254" "long_frame ! 2 = 0"
  "long_frame ! 255 = 254" "sum_list (take 255 long_frame) = 254"
  by (simp_all add: long_frame_def nth_Cons' nth_append sum_list_replicate)

lemma long_frame_ok: "frame_ok long_frame"
  using ValidateChecksum_eq [of long_frame]
  by (simp add: frame_ok_def long_frame_facts)

lemma XorMessageWith_zero: "XorMessageWith m 0 = m"
  by (simp add: XorMessageWith_def)

lemma long_frame_decode:
  "ValidateAndDecodeMessage long_frame = Inr (Some [], 0, Some long_frame)"
proof -
  have l: "4 \<le> length long_frame" by (simp add: long_frame_facts)
  have v: "ValidateChecksum long_frame = Inr True"
    using long_frame_ok by (simp add: frame_ok_def)
  have "decode_split long_frame long_frame 0 = Inr (Some [], 0, Some long_frame)"
    by (simp add: decode_split_def long_frame_facts)
  then show ?thesis
    by (simp add: ValidateAndDecodeMessage_cases [OF l] long_frame_facts XorMessageWith_zero v)
qed

text \<open>
  As the claim was written, for every pair of validly obfuscated frames, it fails. The
  frame \<open>[0, 2, 1, 3]\<close> carries the low-bit complement of its key 0 in its third byte, and
  \<open>[7, 2, 0, 9]\<close> is a frame with key 0; each decodes to itself when it is the whole
  buffer. In the buffer of both, the key read first, 1, already validates, with a length
  byte of 3: the decoder returns five bytes XORed with 1 and the remainder \<open>[2, 0, 9]\<close>.
\<close>

theorem decode_trailing_split_counterexample:
  "obfuscated_frame [0, 2, 1, 3] \<and> obfuscated_frame [7, 2, 0, 9]
   \<and> ValidateAndDecodeMessage [0, 2, 1, 3] = Inr (Some [0, 2, 1, 3], 0, None)
   \<and> ValidateAndDecodeMessage [7, 2, 0, 9] = Inr (Some [7, 2, 0, 9], 0, None)
   \<and> ValidateAndDecodeMessage ([0, 2, 1, 3] @ [7, 2, 0, 9])
        = Inr (Some [1, 3, 0, 2, 6], 1, Some [2, 0, 9])
   \<and> ValidateAndDecodeMessage ([0, 2, 1, 3] @ [7, 2, 0, 9])
        \<noteq> Inr (Some [0, 2, 1, 3], 0, Some [7, 2, 0, 9])"
  by (simp add: obfuscated_frame_def frame_ok_def ValidateAndDecodeMessage_def
      ValidateChecksum_def Checksum_def XorMessageWith_def decode_split_def word_le_nat_alt)

end
